theory Spec2Isabelle
  imports Main "HOL-Library.Word"
begin

section \<open>The magician module: data model\<close>

text \<open>
  The module keeps three globals: the array \<open>card\<close> of \<open>MAX_SIZE\<close> bytes (the
  field \<open>card_buf\<close>, as \<open>card\<close> is the cardinality of a set in HOL), the
  \<open>unsigned long\<close> \<open>card_size\<close> and the atomic flag \<open>already_open\<close>. The file
  operations also touch the caller's memory through \<open>put_user\<close>, \<open>copy_to_user\<close>
  and \<open>copy_from_user\<close>, so the memory of the calling process is part of the state:
  a map from user addresses to bytes, where an address outside the map faults.
  \<open>size_t\<close>, \<open>unsigned long\<close> and \<open>loff_t\<close> are 64-bit words (\<open>loff_t\<close> read as
  two's complement); a returned \<open>ssize_t\<close> or \<open>int\<close> is given by its integer value,
  a negative one being an error code. Logging (\<open>pr_info\<close>, \<open>pr_alert\<close>) has no
  effect on the state and is left out.
\<close>

type_synonym byte = "8 word"
type_synonym size_t = "64 word"
type_synonym loff_t = "64 word"
type_synonym uaddr = nat
type_synonym umem = "uaddr \<Rightarrow> byte option"

definition MAX_SIZE :: nat where
  "MAX_SIZE = 1024"

definition DEVICE_NOT_USED :: int where
  "DEVICE_NOT_USED = 0"

definition DEVICE_EXCLUSIVE_OPEN :: int where
  "DEVICE_EXCLUSIVE_OPEN = 1"

text \<open>The error numbers of \<open>linux/errno.h\<close>.\<close>

definition EFAULT :: int where
  "EFAULT = 14"

definition EBUSY :: int where
  "EBUSY = 16"

record machine =
  card_buf :: "byte list"
  card_size :: size_t
  already_open :: int
  user :: umem

text \<open>
  The state when the module has been loaded: \<open>card_size\<close> and \<open>already_open\<close> have
  their static initialisers, \<open>magician_init\<close> clears \<open>card\<close>.
\<close>

definition magician_init :: "umem \<Rightarrow> machine" where
  "magician_init um =
     \<lparr>card_buf = replicate MAX_SIZE 0, card_size = 0,
      already_open = DEVICE_NOT_USED, user = um\<rparr>"

subsection \<open>The kernel primitives the module calls\<close>

text \<open>
  \<open>atomic_cmpxchg(v, old, new)\<close> stores \<open>new\<close> when the value is \<open>old\<close> and returns
  the value it found.
\<close>

definition atomic_cmpxchg :: "int \<Rightarrow> int \<Rightarrow> int \<Rightarrow> int \<times> int" where
  "atomic_cmpxchg v old new = (if v = old then new else v, v)"

text \<open>\<open>put_user(x, ptr)\<close> stores one byte; it returns 0, or \<open>-EFAULT\<close> when \<open>ptr\<close> faults.\<close>

definition put_user :: "byte \<Rightarrow> uaddr \<Rightarrow> umem \<Rightarrow> umem \<times> int" where
  "put_user x p um = (if um p = None then (um, - EFAULT) else (um(p \<mapsto> x), 0))"

text \<open>
  \<open>copy_to_user(to, from, n)\<close> returns the number of bytes it could not copy. The
  bytes are copied in order up to the first address that faults.
\<close>

fun copy_to_user :: "umem \<Rightarrow> uaddr \<Rightarrow> byte list \<Rightarrow> umem \<times> nat" where
  "copy_to_user um p [] = (um, 0)"
| "copy_to_user um p (b # bs) =
     (if um p = None then (um, Suc (length bs))
      else copy_to_user (um(p \<mapsto> b)) (Suc p) bs)"

text \<open>
  \<open>fetch um p n\<close> reads the bytes at \<open>p, p + 1, ...\<close>, at most \<open>n\<close> of them, up to the
  first address that faults.
\<close>

fun fetch :: "umem \<Rightarrow> uaddr \<Rightarrow> nat \<Rightarrow> byte list" where
  "fetch um p 0 = []"
| "fetch um p (Suc n) =
     (case um p of None \<Rightarrow> [] | Some b \<Rightarrow> b # fetch um (Suc p) n)"

text \<open>
  \<open>copy_from_user(to, from, n)\<close> returns the number of bytes it could not copy.
  Linux pads the destination with zero bytes up to \<open>n\<close> when the copy stops early.
  The destination is the kernel array \<open>dst\<close>, written from index 0.
\<close>

definition copy_from_user :: "byte list \<Rightarrow> umem \<Rightarrow> uaddr \<Rightarrow> nat \<Rightarrow> byte list \<times> nat" where
  "copy_from_user dst um p n =
     (let got = fetch um p n; k = length got
      in (got @ replicate (n - k) 0 @ drop n dst, n - k))"

section \<open>The file operations\<close>

subsection \<open>/dev/magician\<close>

definition device_open :: "machine \<Rightarrow> machine \<times> int" where
  "device_open s =
     (case atomic_cmpxchg (already_open s) DEVICE_NOT_USED DEVICE_EXCLUSIVE_OPEN of
        (v, found) \<Rightarrow>
          if found \<noteq> 0 then (s\<lparr>already_open := v\<rparr>, - EBUSY)
          else (s\<lparr>already_open := v\<rparr>, 0))"

definition device_release :: "machine \<Rightarrow> machine \<times> int" where
  "device_release s = (s\<lparr>already_open := DEVICE_NOT_USED\<rparr>, 0)"

text \<open>
  The loop of \<open>device_read\<close>: \<open>for(i = 0; i < length; i++)\<close> with the body
  \<open>put_user(card[i % card_size], buffer++)\<close>. The result is the user memory and
  whether a \<open>put_user\<close> faulted.
\<close>

function device_read_loop ::
  "byte list \<Rightarrow> size_t \<Rightarrow> umem \<Rightarrow> uaddr \<Rightarrow> size_t \<Rightarrow> size_t \<Rightarrow> umem \<times> bool" where
  "device_read_loop c cs um buffer len i =
     (if i < len then
        (case put_user (c ! unat (i mod cs)) buffer um of
           (um', r) \<Rightarrow>
             if r \<noteq> 0 then (um', True)
             else device_read_loop c cs um' (Suc buffer) len (i + 1))
      else (um, False))"
  by pat_completeness auto
termination
proof (relation "measure (\<lambda>(c, cs, um, buffer, len, i). unat len - unat i)")
  show "wf (measure (\<lambda>(c, cs, um, buffer, len, i). unat len - unat i))"
    by simp
next
  fix c :: "byte list" and cs :: size_t and um :: umem and buffer :: uaddr
    and len i :: size_t and x :: "umem \<times> int" and um' :: umem and r :: int
  assume lt: "i < len"
  then have il: "unat i < unat len"
    by (simp add: word_less_nat_alt)
  have "unat len < 2 ^ 64"
    using unsigned_less [of len, where ?'a = nat] by simp
  with il have "unat i + unat (1 :: size_t) < 2 ^ LENGTH(64)"
    by simp
  then have "unat (i + 1) = unat i + unat (1 :: size_t)"
    by (simp only: unat_add_lem)
  then have "unat (i + 1) = Suc (unat i)"
    by simp
  with il have "unat len - unat (i + 1) < unat len - unat i"
    by simp
  then show
    "((c, cs, um', Suc buffer, len, i + 1), (c, cs, um, buffer, len, i))
       \<in> measure (\<lambda>(c, cs, um, buffer, len, i). unat len - unat i)"
    by simp
qed

definition device_read ::
  "machine \<Rightarrow> uaddr \<Rightarrow> size_t \<Rightarrow> loff_t \<Rightarrow> machine \<times> loff_t \<times> int" where
  "device_read s buffer len offset =
     (if card_size s = 0 then (s, offset, 0)
      else
        (case device_read_loop (card_buf s) (card_size s) (user s) buffer len 0 of
           (um', faulted) \<Rightarrow>
             if faulted then (s\<lparr>user := um'\<rparr>, offset, - EFAULT)
             else (s\<lparr>user := um'\<rparr>, offset + len, sint len)))"

definition device_write ::
  "machine \<Rightarrow> uaddr \<Rightarrow> size_t \<Rightarrow> loff_t \<Rightarrow> machine \<times> loff_t \<times> int" where
  "device_write s buffer len offset = (s, offset, sint len)"

subsection \<open>/proc/magician\<close>

definition procfile_read ::
  "machine \<Rightarrow> uaddr \<Rightarrow> size_t \<Rightarrow> loff_t \<Rightarrow> machine \<times> loff_t \<times> int" where
  "procfile_read s buffer len offset =
     (if 0 <s offset \<or> card_size s = 0 then (s, offset, 0)
      else
        (case copy_to_user (user s) buffer (take (unat (card_size s)) (card_buf s)) of
           (um', left) \<Rightarrow>
             if left \<noteq> 0 then (s\<lparr>user := um'\<rparr>, offset, - EFAULT)
             else (s\<lparr>user := um'\<rparr>, offset + card_size s, sint (card_size s))))"

definition procfile_write ::
  "machine \<Rightarrow> uaddr \<Rightarrow> size_t \<Rightarrow> loff_t \<Rightarrow> machine \<times> loff_t \<times> int" where
  "procfile_write s buffer len offset =
     (let n = (if len \<ge> of_nat MAX_SIZE then of_nat MAX_SIZE - 1 else len);
          s1 = s\<lparr>card_size := n\<rparr>
      in case copy_from_user (card_buf s1) (user s1) buffer (unat n) of
           (c', left) \<Rightarrow>
             if left \<noteq> 0 then (s1\<lparr>card_buf := c'\<rparr>, offset, - EFAULT)
             else (s1\<lparr>card_buf := c'[unat n := 0]\<rparr>, offset + n, sint n))"

section \<open>Views and runs used by the statements\<close>

text \<open>The stored card: the first \<open>card_size\<close> bytes of the array.\<close>

definition stored_card :: "machine \<Rightarrow> byte list" where
  "stored_card s = take (unat (card_size s)) (card_buf s)"

definition store_inv :: "machine \<Rightarrow> bool" where
  "store_inv s \<longleftrightarrow> unat (card_size s) < MAX_SIZE"

text \<open>\<open>card\<close> is declared \<open>char card[MAX_SIZE]\<close>.\<close>

definition card_array :: "machine \<Rightarrow> bool" where
  "card_array s \<longleftrightarrow> length (card_buf s) = MAX_SIZE"

text \<open>
  \<open>mapped um p n\<close>: the \<open>n\<close> addresses from \<open>p\<close> on are mapped, so that the caller's
  buffer of \<open>n\<close> bytes at \<open>p\<close> can be read and written without a fault.
\<close>

definition mapped :: "umem \<Rightarrow> uaddr \<Rightarrow> nat \<Rightarrow> bool" where
  "mapped um p n \<longleftrightarrow> (\<forall>k < n. um (p + k) \<noteq> None)"

text \<open>
  The bytes a read delivered: a read that returns \<open>r\<close> tells the caller that the
  first \<open>r\<close> bytes of its buffer are the data.
\<close>

definition delivered :: "machine \<times> loff_t \<times> int \<Rightarrow> uaddr \<Rightarrow> byte list" where
  "delivered res buffer = (case res of (s', offset', r) \<Rightarrow> fetch (user s') buffer (nat r))"

text \<open>
  A call of one of the six file operations, or the calling process changing its
  own memory between two calls.
\<close>

datatype call =
    DevOpen
  | DevRelease
  | DevRead uaddr size_t loff_t
  | DevWrite uaddr size_t loff_t
  | ProcRead uaddr size_t loff_t
  | ProcWrite uaddr size_t loff_t
  | UserSets umem

fun exec :: "machine \<Rightarrow> call \<Rightarrow> machine" where
  "exec s DevOpen = fst (device_open s)"
| "exec s DevRelease = fst (device_release s)"
| "exec s (DevRead buffer len offset) = fst (device_read s buffer len offset)"
| "exec s (DevWrite buffer len offset) = fst (device_write s buffer len offset)"
| "exec s (ProcRead buffer len offset) = fst (procfile_read s buffer len offset)"
| "exec s (ProcWrite buffer len offset) = fst (procfile_write s buffer len offset)"
| "exec s (UserSets um) = s\<lparr>user := um\<rparr>"

fun run :: "machine \<Rightarrow> call list \<Rightarrow> machine" where
  "run s [] = s"
| "run s (c # cs) = run (exec s c) cs"

text \<open>
  Opens and closes of the device file, with the number of opens that succeeded and
  have not been closed yet. The kernel calls \<open>release\<close> only for a file whose
  \<open>open\<close> succeeded, so a close with no open file does nothing.
\<close>

datatype event = Open | Close

fun occupancy_step :: "machine \<times> nat \<Rightarrow> event \<Rightarrow> machine \<times> nat" where
  "occupancy_step (s, k) Open =
     (case device_open s of (s', r) \<Rightarrow> (s', if r = 0 then Suc k else k))"
| "occupancy_step (s, k) Close =
     (if k = 0 then (s, k) else (fst (device_release s), k - 1))"

fun occupancy_run :: "machine \<times> nat \<Rightarrow> event list \<Rightarrow> machine \<times> nat" where
  "occupancy_run sk [] = sk"
| "occupancy_run sk (e # es) = occupancy_run (occupancy_step sk e) es"

section \<open>Auxiliary facts\<close>

lemma sint_small: "unat (w :: 64 word) < 2 ^ 63 \<Longrightarrow> sint w = int (unat w)"
proof -
  assume "unat w < 2 ^ 63"
  then have "int (unat w) < 2 ^ 63"
    by (metis of_nat_less_iff of_nat_numeral of_nat_power)
  then have u: "uint w < 2 ^ 63" by simp
  have "sint w = signed_take_bit 63 (uint w)"
    by (simp add: sint_uint)
  also have "\<dots> = uint w"
  proof (rule signed_take_bit_int_eq_self)
    have "- (2 ^ 63) \<le> (0::int)" by simp
    also have "(0::int) \<le> uint w" by simp
    finally show "- (2 ^ 63) \<le> uint w" .
    from u show "uint w < 2 ^ 63" .
  qed
  finally show ?thesis by simp
qed

lemma occupancy_run_inv:
  "already_open s = DEVICE_NOT_USED \<and> k = 0 \<or>
   already_open s = DEVICE_EXCLUSIVE_OPEN \<and> k = 1 \<Longrightarrow>
   occupancy_run (s, k) es = (t, j) \<Longrightarrow>
   already_open t = DEVICE_NOT_USED \<and> j = 0 \<or>
   already_open t = DEVICE_EXCLUSIVE_OPEN \<and> j = 1"
proof (induction es arbitrary: s k)
  case Nil
  then show ?case by simp
next
  case (Cons e es)
  obtain s' k' where st: "occupancy_step (s, k) e = (s', k')"
    by (cases "occupancy_step (s, k) e")
  with Cons.prems(1) have
    "already_open s' = DEVICE_NOT_USED \<and> k' = 0 \<or>
     already_open s' = DEVICE_EXCLUSIVE_OPEN \<and> k' = 1"
    by (cases e) (auto simp: device_open_def device_release_def atomic_cmpxchg_def
      DEVICE_NOT_USED_def DEVICE_EXCLUSIVE_OPEN_def EBUSY_def split: if_splits)
  moreover from Cons.prems(2) st have "occupancy_run (s', k') es = (t, j)"
    by simp
  ultimately show ?case
    by (rule Cons.IH)
qed

lemma procfile_write_store_inv: "store_inv (fst (procfile_write s buffer len offset))"
proof (cases "len \<ge> of_nat MAX_SIZE")
  case True
  then show ?thesis
    by (simp add: procfile_write_def store_inv_def Let_def MAX_SIZE_def split: prod.splits)
next
  case False
  then have "unat len < MAX_SIZE"
    by (simp add: MAX_SIZE_def word_le_nat_alt)
  with False show ?thesis
    by (simp add: procfile_write_def store_inv_def Let_def split: prod.splits)
qed

lemma exec_store_inv: "store_inv s \<Longrightarrow> store_inv (exec s c)"
proof (cases c)
  case (ProcWrite buffer len offset)
  then show ?thesis
    by (simp add: procfile_write_store_inv)
qed (auto simp: store_inv_def device_open_def device_release_def device_read_def
      device_write_def procfile_read_def atomic_cmpxchg_def split: prod.splits)

lemma run_store_inv: "store_inv s \<Longrightarrow> store_inv (run s cs)"
  by (induction cs arbitrary: s) (simp_all add: exec_store_inv)

lemma unat_inc: "i < (len :: size_t) \<Longrightarrow> unat (i + 1) = Suc (unat i)"
proof -
  assume "i < len"
  then have il: "unat i < unat len"
    by (simp add: word_less_nat_alt)
  have "unat len < 2 ^ 64"
    using unsigned_less [of len, where ?'a = nat] by simp
  with il have "unat i + unat (1 :: size_t) < 2 ^ LENGTH(64)"
    by simp
  then have "unat (i + 1) = unat i + unat (1 :: size_t)"
    by (simp only: unat_add_lem)
  then show ?thesis
    by simp
qed

lemma fetch_map:
  "(\<And>k. k < n \<Longrightarrow> um (p + k) = Some (f k)) \<Longrightarrow> fetch um p n = map f [0..<n]"
proof (induction n arbitrary: p f)
  case 0
  then show ?case by simp
next
  case (Suc n)
  have "um p = Some (f 0)"
    using Suc.prems [of 0] by simp
  moreover have "fetch um (Suc p) n = map (\<lambda>k. f (Suc k)) [0..<n]"
  proof (rule Suc.IH)
    fix k assume "k < n"
    then show "um (Suc p + k) = Some (f (Suc k))"
      using Suc.prems [of "Suc k"] by simp
  qed
  moreover have "map f [0..<Suc n] = f 0 # map (\<lambda>k. f (Suc k)) [0..<n]"
    by (simp add: upt_conv_Cons map_Suc_upt [symmetric] del: upt_Suc)
  ultimately show ?case
    by simp
qed

lemma device_read_loop_ok:
  "i \<le> len \<Longrightarrow> mapped um buffer (unat len - unat i) \<Longrightarrow>
   \<exists>um'. device_read_loop c cs um buffer len i = (um', False) \<and>
     (\<forall>k < unat len - unat i. um' (buffer + k) = Some (c ! ((unat i + k) mod unat cs))) \<and>
     (\<forall>a. a < buffer \<or> buffer + (unat len - unat i) \<le> a \<longrightarrow> um' a = um a)"
proof (induction c cs um buffer len i rule: device_read_loop.induct)
  case (1 c cs um buffer len i)
  show ?case
  proof (cases "i < len")
    case False
    with "1.prems" have "unat len - unat i = 0"
      by (simp add: word_less_nat_alt)
    with False show ?thesis
      by (subst device_read_loop.simps) simp
  next
    case True
    then have il: "unat i < unat len"
      by (simp add: word_less_nat_alt)
    from True have inc: "unat (i + 1) = Suc (unat i)"
      by (rule unat_inc)
    from il "1.prems"(2) have here: "um buffer \<noteq> None"
      unfolding mapped_def by (metis add.right_neutral zero_less_diff)
    define x where "x = c ! unat (i mod cs)"
    define um1 where "um1 = um(buffer \<mapsto> x)"
    have pu: "put_user x buffer um = (um1, 0)"
      using here by (auto simp: put_user_def um1_def)
    have le': "i + 1 \<le> len"
      using True by (rule inc_le)
    have wr': "mapped um1 (Suc buffer) (unat len - unat (i + 1))"
      using "1.prems"(2) il unfolding mapped_def um1_def inc
      by (auto simp: less_diff_conv) (metis add.commute add_Suc_right less_diff_conv)
    have "\<exists>um'. device_read_loop c cs um1 (Suc buffer) len (i + 1) = (um', False) \<and>
       (\<forall>k < unat len - unat (i + 1).
          um' (Suc buffer + k) = Some (c ! ((unat (i + 1) + k) mod unat cs))) \<and>
       (\<forall>a. a < Suc buffer \<or> Suc buffer + (unat len - unat (i + 1)) \<le> a \<longrightarrow> um' a = um1 a)"
    proof (rule "1.IH" [OF True pu [unfolded x_def, symmetric] _ le' wr'])
      show "\<not> (0::int) \<noteq> 0" by simp
    qed
    then obtain um' where
      rec: "device_read_loop c cs um1 (Suc buffer) len (i + 1) = (um', False)" and
      vals: "\<And>k. k < unat len - unat (i + 1) \<Longrightarrow>
          um' (Suc buffer + k) = Some (c ! ((unat (i + 1) + k) mod unat cs))" and
      frame: "\<And>a. a < Suc buffer \<or> Suc buffer + (unat len - unat (i + 1)) \<le> a \<Longrightarrow> um' a = um1 a"
      by blast
    have res: "device_read_loop c cs um buffer len i = (um', False)"
      using True pu rec by (subst device_read_loop.simps) (simp add: x_def)
    have v: "um' (buffer + k) = Some (c ! ((unat i + k) mod unat cs))"
      if "k < unat len - unat i" for k
    proof (cases k)
      case 0
      have "um' buffer = um1 buffer"
        by (rule frame) simp
      then show ?thesis
        using 0 by (simp add: um1_def x_def unat_mod)
    next
      case (Suc j)
      with that have "j < unat len - unat (i + 1)"
        by (simp add: inc)
      from vals [OF this] show ?thesis
        using Suc by (simp add: inc)
    qed
    have f: "um' a = um a" if "a < buffer \<or> buffer + (unat len - unat i) \<le> a" for a
    proof -
      from that il have "a < Suc buffer \<or> Suc buffer + (unat len - unat (i + 1)) \<le> a"
        by (auto simp: inc)
      then have "um' a = um1 a"
        by (rule frame)
      moreover from that il have "a \<noteq> buffer"
        by auto
      ultimately show ?thesis
        by (simp add: um1_def)
    qed
    from res v f show ?thesis
      by blast
  qed
qed

lemma stored_card_length:
  "store_inv s \<Longrightarrow> card_array s \<Longrightarrow> length (stored_card s) = unat (card_size s)"
  by (simp add: stored_card_def store_inv_def card_array_def)

lemma stored_card_nth:
  "card_size s \<noteq> 0 \<Longrightarrow>
   stored_card s ! (k mod unat (card_size s)) = card_buf s ! (k mod unat (card_size s))"
proof -
  assume "card_size s \<noteq> 0"
  then have "0 < unat (card_size s)"
    by (simp add: unat_gt_0)
  then have "k mod unat (card_size s) < unat (card_size s)"
    by simp
  then show ?thesis
    by (simp add: stored_card_def)
qed

lemma fetch_numeral:
  "fetch um p (numeral n) =
     (case um p of None \<Rightarrow> [] | Some b \<Rightarrow> b # fetch um (Suc p) (pred_numeral n))"
  by (simp add: numeral_eq_Suc)

lemma device_read_ok:
  assumes "card_size s \<noteq> 0" and "mapped (user s) buffer (unat len)"
  shows "\<exists>um'. device_read s buffer len offset = (s\<lparr>user := um'\<rparr>, offset + len, sint len) \<and>
     fetch um' buffer (unat len) =
       map (\<lambda>k. card_buf s ! (k mod unat (card_size s))) [0..<unat len]"
proof -
  have "(0 :: size_t) \<le> len" by simp
  moreover from assms(2) have "mapped (user s) buffer (unat len - unat (0 :: size_t))"
    by simp
  ultimately obtain um' where
    loop: "device_read_loop (card_buf s) (card_size s) (user s) buffer len 0 = (um', False)" and
    vals: "\<forall>k < unat len - unat (0 :: size_t).
       um' (buffer + k) = Some (card_buf s ! ((unat (0 :: size_t) + k) mod unat (card_size s)))"
    using device_read_loop_ok [of 0 len "user s" buffer "card_buf s" "card_size s"] by blast
  have "fetch um' buffer (unat len) =
      map (\<lambda>k. card_buf s ! (k mod unat (card_size s))) [0..<unat len]"
    by (rule fetch_map) (use vals in simp)
  moreover from loop assms(1) have
    "device_read s buffer len offset = (s\<lparr>user := um'\<rparr>, offset + len, sint len)"
    by (simp add: device_read_def)
  ultimately show ?thesis
    by blast
qed

lemma device_read_delivered:
  assumes "store_inv s" and "card_array s" and "card_size s \<noteq> 0"
    and "mapped (user s) buffer (unat len)" and "unat len < 2 ^ 63"
  shows "snd (snd (device_read s buffer len offset)) = int (unat len) \<and>
     delivered (device_read s buffer len offset) buffer =
       map (\<lambda>k. stored_card s ! (k mod length (stored_card s))) [0..<unat len]"
proof -
  from device_read_ok [OF assms(3,4)] obtain um' where
    r: "device_read s buffer len offset = (s\<lparr>user := um'\<rparr>, offset + len, sint len)" and
    f: "fetch um' buffer (unat len) =
       map (\<lambda>k. card_buf s ! (k mod unat (card_size s))) [0..<unat len]"
    by blast
  have "sint len = int (unat len)"
    using assms(5) by (rule sint_small)
  with r f show ?thesis
    by (simp add: delivered_def stored_card_length [OF assms(1,2)] stored_card_nth [OF assms(3)])
qed

lemma length_fetch_le: "length (fetch um p n) \<le> n"
  by (induction n arbitrary: p) (auto split: option.splits)

lemma fetch_mapped: "mapped um p n \<Longrightarrow> length (fetch um p n) = n"
proof (induction n arbitrary: p)
  case 0
  then show ?case by simp
next
  case (Suc n)
  from Suc.prems have "um p \<noteq> None"
    unfolding mapped_def by (metis add.right_neutral zero_less_Suc)
  moreover from Suc.prems have "mapped um (Suc p) n"
    unfolding mapped_def by (metis Suc_less_eq add_Suc_shift)
  ultimately show ?case
    using Suc.IH by auto
qed

lemma fetch_unmapped: "\<not> mapped um p n \<Longrightarrow> length (fetch um p n) < n"
proof (induction n arbitrary: p)
  case 0
  then show ?case by (simp add: mapped_def)
next
  case (Suc n)
  show ?case
  proof (cases "um p")
    case None
    then show ?thesis by simp
  next
    case (Some b)
    have "\<not> mapped um (Suc p) n"
    proof
      assume m: "mapped um (Suc p) n"
      have "mapped um p (Suc n)"
        unfolding mapped_def
      proof (intro allI impI)
        fix k assume "k < Suc n"
        show "um (p + k) \<noteq> None"
        proof (cases k)
          case 0
          with Some show ?thesis by simp
        next
          case (Suc j)
          with \<open>k < Suc n\<close> m show ?thesis
            by (simp add: mapped_def)
        qed
      qed
      with Suc.prems show False by simp
    qed
    then have "length (fetch um (Suc p) n) < n"
      by (rule Suc.IH)
    with Some show ?thesis by simp
  qed
qed

lemma fetch_take: "m \<le> n \<Longrightarrow> fetch um p m = take m (fetch um p n)"
proof (induction n arbitrary: p m)
  case 0
  then show ?case by simp
next
  case (Suc n)
  show ?case
  proof (cases m)
    case 0
    then show ?thesis by simp
  next
    case (Suc j)
    with Suc.prems have "j \<le> n" by simp
    then have "fetch um (Suc p) j = take j (fetch um (Suc p) n)"
      by (rule Suc.IH)
    with Suc show ?thesis
      by (simp split: option.splits)
  qed
qed

lemma copy_to_user_ok:
  "mapped um p (length bs) \<Longrightarrow>
   \<exists>um'. copy_to_user um p bs = (um', 0) \<and> fetch um' p (length bs) = bs \<and>
     (\<forall>a. um a \<noteq> None \<longrightarrow> um' a \<noteq> None) \<and> (\<forall>a < p. um' a = um a)"
proof (induction bs arbitrary: um p)
  case Nil
  then show ?case by simp
next
  case (Cons b bs)
  from Cons.prems have here: "um p \<noteq> None"
    unfolding mapped_def by (metis add.right_neutral length_greater_0_conv list.discI)
  from Cons.prems have "mapped (um(p \<mapsto> b)) (Suc p) (length bs)"
    unfolding mapped_def by auto
  from Cons.IH [OF this] obtain um' where
    c: "copy_to_user (um(p \<mapsto> b)) (Suc p) bs = (um', 0)" and
    f: "fetch um' (Suc p) (length bs) = bs" and
    k: "\<forall>a. (um(p \<mapsto> b)) a \<noteq> None \<longrightarrow> um' a \<noteq> None" and
    fr: "\<forall>a < Suc p. um' a = (um(p \<mapsto> b)) a"
    by blast
  from fr have "um' p = Some b" by simp
  with here c f k fr show ?case
    by (auto split: if_splits)
qed

lemma clamp_unat:
  "unat (if len \<ge> of_nat MAX_SIZE then of_nat MAX_SIZE - 1 else len :: size_t) =
     min (unat len) (MAX_SIZE - 1)"
proof (cases "len \<ge> of_nat MAX_SIZE")
  case True
  then have "1024 \<le> unat len"
    by (simp add: MAX_SIZE_def word_le_nat_alt)
  with True show ?thesis
    by (simp add: MAX_SIZE_def)
next
  case False
  then have "unat len < 1024"
    by (simp add: MAX_SIZE_def word_le_nat_alt)
  with False show ?thesis
    by (simp add: MAX_SIZE_def)
qed

lemma procfile_write_ok:
  assumes "card_array s" and "mapped (user s) buffer (min (unat len) (MAX_SIZE - 1))"
  shows "\<exists>s'. procfile_write s buffer len offset =
       (s', offset + card_size s', int (min (unat len) (MAX_SIZE - 1))) \<and>
     unat (card_size s') = min (unat len) (MAX_SIZE - 1) \<and>
     stored_card s' = fetch (user s) buffer (min (unat len) (MAX_SIZE - 1)) \<and>
     card_array s' \<and> user s' = user s \<and> already_open s' = already_open s"
proof -
  define n :: size_t where "n = (if len \<ge> of_nat MAX_SIZE then of_nat MAX_SIZE - 1 else len)"
  define m where "m = min (unat len) (MAX_SIZE - 1)"
  define got where "got = fetch (user s) buffer m"
  have nm: "unat n = m"
    unfolding n_def m_def by (rule clamp_unat)
  have m: "m < 1024"
    by (simp add: m_def MAX_SIZE_def)
  have lg: "length got = m"
    unfolding got_def using assms(2) unfolding m_def [symmetric] by (rule fetch_mapped)
  have cl: "length (card_buf s) = 1024"
    using assms(1) by (simp add: card_array_def MAX_SIZE_def)
  have cf: "copy_from_user (card_buf s) (user s) buffer m = (got @ drop m (card_buf s), 0)"
    by (simp add: copy_from_user_def Let_def got_def [symmetric] lg)
  have "unat n < 2 ^ 63"
    using m nm by simp
  then have si: "sint n = int m"
    using nm by (simp add: sint_small)
  define s' where
    "s' = s\<lparr>card_size := n, card_buf := (got @ drop m (card_buf s))[m := 0]\<rparr>"
  have w: "procfile_write s buffer len offset = (s', offset + n, int m)"
    using cf si nm by (simp add: procfile_write_def Let_def n_def [symmetric] s'_def)
  have "stored_card s' = got"
    using lg by (simp add: stored_card_def s'_def nm)
  moreover have "card_array s'"
    using cl m lg by (simp add: card_array_def s'_def MAX_SIZE_def)
  ultimately show ?thesis
    using w nm by (auto simp: s'_def got_def m_def)
qed

lemma procfile_write_fault:
  assumes "card_array s" and "\<not> mapped (user s) buffer (min (unat len) (MAX_SIZE - 1))"
  shows "\<exists>s'. procfile_write s buffer len offset = (s', offset, - EFAULT) \<and>
     unat (card_size s') = min (unat len) (MAX_SIZE - 1) \<and>
     card_buf s' =
       fetch (user s) buffer (min (unat len) (MAX_SIZE - 1)) @
       replicate (min (unat len) (MAX_SIZE - 1) -
         length (fetch (user s) buffer (min (unat len) (MAX_SIZE - 1)))) 0 @
       drop (min (unat len) (MAX_SIZE - 1)) (card_buf s) \<and>
     card_array s' \<and> user s' = user s \<and> already_open s' = already_open s"
proof -
  define n :: size_t where "n = (if len \<ge> of_nat MAX_SIZE then of_nat MAX_SIZE - 1 else len)"
  define m where "m = min (unat len) (MAX_SIZE - 1)"
  define got where "got = fetch (user s) buffer m"
  have nm: "unat n = m"
    unfolding n_def m_def by (rule clamp_unat)
  have m: "m < 1024"
    by (simp add: m_def MAX_SIZE_def)
  have lg: "length got < m"
    unfolding got_def using assms(2) unfolding m_def [symmetric] by (rule fetch_unmapped)
  have cl: "length (card_buf s) = 1024"
    using assms(1) by (simp add: card_array_def MAX_SIZE_def)
  have cf: "copy_from_user (card_buf s) (user s) buffer m =
      (got @ replicate (m - length got) 0 @ drop m (card_buf s), m - length got)"
    by (simp add: copy_from_user_def Let_def got_def [symmetric])
  define s' where
    "s' = s\<lparr>card_size := n,
        card_buf := got @ replicate (m - length got) 0 @ drop m (card_buf s)\<rparr>"
  have w: "procfile_write s buffer len offset = (s', offset, - EFAULT)"
    using cf lg nm by (simp add: procfile_write_def Let_def n_def [symmetric] s'_def)
  have "card_array s'"
    using cl m lg by (simp add: card_array_def s'_def MAX_SIZE_def)
  then show ?thesis
    using w nm by (auto simp: s'_def got_def m_def)
qed

lemma procfile_read_ok:
  assumes "store_inv s" and "card_array s" and "sint offset \<le> 0"
    and "mapped (user s) buffer (unat (card_size s))"
  shows "snd (snd (procfile_read s buffer len offset)) = int (unat (card_size s)) \<and>
     delivered (procfile_read s buffer len offset) buffer = stored_card s"
proof (cases "card_size s = 0")
  case True
  then show ?thesis
    by (simp add: procfile_read_def delivered_def stored_card_def)
next
  case False
  have l: "length (stored_card s) = unat (card_size s)"
    using assms(1,2) by (rule stored_card_length)
  with assms(4) have "mapped (user s) buffer (length (stored_card s))"
    by simp
  from copy_to_user_ok [OF this] obtain um' where
    c: "copy_to_user (user s) buffer (stored_card s) = (um', 0)" and
    f: "fetch um' buffer (length (stored_card s)) = stored_card s"
    by blast
  have "unat (card_size s) < 2 ^ 63"
    using assms(1) by (simp add: store_inv_def MAX_SIZE_def)
  then have "sint (card_size s) = int (unat (card_size s))"
    by (rule sint_small)
  with False assms(3) c f l show ?thesis
    by (simp add: procfile_read_def delivered_def stored_card_def [symmetric] word_sless_alt)
qed

lemma sint_le_unat: "nat (sint (w :: size_t)) \<le> unat w"
proof -
  have "- (2 ^ 63) \<le> (0::int)" by simp
  also have "(0::int) \<le> uint w" by simp
  finally have "signed_take_bit 63 (uint w) \<le> uint w"
    by (simp only: signed_take_bit_int_less_eq_self_iff)
  then have "sint w \<le> uint w"
    by (simp add: sint_uint)
  then have "nat (sint w) \<le> nat (uint w)"
    by (rule nat_mono)
  then show ?thesis
    by (simp only: unat_eq_nat_uint)
qed

lemma device_read_depends_on_stored_card:
  assumes "store_inv s" and "card_array s" and "mapped (user s) buffer (unat len)"
  shows "snd (snd (device_read s buffer len offset)) = (if stored_card s = [] then 0 else sint len) \<and>
     delivered (device_read s buffer len offset) buffer =
       (if stored_card s = [] then []
        else take (nat (sint len))
          (map (\<lambda>k. stored_card s ! (k mod length (stored_card s))) [0..<unat len]))"
proof (cases "card_size s = 0")
  case True
  then show ?thesis
    by (simp add: device_read_def delivered_def stored_card_def)
next
  case False
  then have "0 < unat (card_size s)"
    by (simp add: unat_gt_0)
  then have ne: "stored_card s \<noteq> []"
    using stored_card_length [OF assms(1,2)] by auto
  from device_read_ok [OF False assms(3)] obtain um' where
    r: "device_read s buffer len offset = (s\<lparr>user := um'\<rparr>, offset + len, sint len)" and
    f: "fetch um' buffer (unat len) =
       map (\<lambda>k. card_buf s ! (k mod unat (card_size s))) [0..<unat len]"
    by blast
  have "fetch um' buffer (nat (sint len)) = take (nat (sint len)) (fetch um' buffer (unat len))"
    using sint_le_unat by (rule fetch_take)
  with r f ne show ?thesis
    by (simp add: delivered_def stored_card_length [OF assms(1,2)] stored_card_nth [OF False])
qed

lemma procfile_write_card_array:
  "card_array s \<Longrightarrow> card_array (fst (procfile_write s buffer len offset))"
proof (cases "mapped (user s) buffer (min (unat len) (MAX_SIZE - 1))")
  case True
  assume "card_array s"
  from procfile_write_ok [OF this True, of offset] show ?thesis
    by auto
next
  case False
  assume "card_array s"
  from procfile_write_fault [OF this False, of offset] show ?thesis
    by auto
qed

lemma exec_card_array: "card_array s \<Longrightarrow> card_array (exec s c)"
proof (cases c)
  case (ProcWrite buffer len offset)
  assume "card_array s"
  with ProcWrite show ?thesis
    by (simp add: procfile_write_card_array)
qed (auto simp: card_array_def device_open_def device_release_def device_read_def
      device_write_def procfile_read_def atomic_cmpxchg_def split: prod.splits)

lemma run_card_array: "card_array s \<Longrightarrow> card_array (run s cs)"
  by (induction cs arbitrary: s) (simp_all add: exec_card_array)

lemma card_array_init: "card_array (magician_init um)"
  by (simp add: card_array_def magician_init_def)

section \<open>The claims\<close>

subsection \<open>Occupancy of the device file\<close>

text \<open>
  C4. The occupancy flag is a two-state machine that starts in \<open>DEVICE_NOT_USED\<close>
  (FREE). \<open>device_open\<close> succeeds exactly when the flag is \<open>DEVICE_NOT_USED\<close> and
  then sets it to \<open>DEVICE_EXCLUSIVE_OPEN\<close> (HELD); on a held device it returns
  \<open>-EBUSY\<close> and changes nothing; \<open>device_release\<close> sets the flag back to
  \<open>DEVICE_NOT_USED\<close>, after which an open succeeds again. After any sequence of
  opens and closes from the initial state, at most one successful open is
  outstanding, and the flag is held exactly when there is one.
\<close>

theorem occupancy_state_machine:
  "already_open (magician_init um) = DEVICE_NOT_USED \<and>
   (snd (device_open s) = 0 \<longleftrightarrow> already_open s = DEVICE_NOT_USED) \<and>
   device_open (s\<lparr>already_open := DEVICE_NOT_USED\<rparr>) =
     (s\<lparr>already_open := DEVICE_EXCLUSIVE_OPEN\<rparr>, 0) \<and>
   device_open (s\<lparr>already_open := DEVICE_EXCLUSIVE_OPEN\<rparr>) =
     (s\<lparr>already_open := DEVICE_EXCLUSIVE_OPEN\<rparr>, - EBUSY) \<and>
   device_release s = (s\<lparr>already_open := DEVICE_NOT_USED\<rparr>, 0) \<and>
   snd (device_open (fst (device_release s))) = 0 \<and>
   (case occupancy_run (magician_init um, 0) es of
      (t, k) \<Rightarrow>
        k \<le> 1 \<and>
        (k = 1 \<longleftrightarrow> already_open t = DEVICE_EXCLUSIVE_OPEN) \<and>
        (k = 0 \<longleftrightarrow> already_open t = DEVICE_NOT_USED))"
proof -
  obtain t k where run: "occupancy_run (magician_init um, 0) es = (t, k)"
    by (cases "occupancy_run (magician_init um, 0) es")
  have "already_open (magician_init um) = DEVICE_NOT_USED \<and> (0::nat) = 0 \<or>
        already_open (magician_init um) = DEVICE_EXCLUSIVE_OPEN \<and> (0::nat) = 1"
    by (simp add: magician_init_def)
  from occupancy_run_inv [OF this run]
  have "k \<le> 1 \<and> (k = 1 \<longleftrightarrow> already_open t = DEVICE_EXCLUSIVE_OPEN) \<and>
        (k = 0 \<longleftrightarrow> already_open t = DEVICE_NOT_USED)"
    by (auto simp: DEVICE_NOT_USED_def DEVICE_EXCLUSIVE_OPEN_def)
  with run show ?thesis
    by (simp add: device_open_def device_release_def atomic_cmpxchg_def magician_init_def
        DEVICE_NOT_USED_def DEVICE_EXCLUSIVE_OPEN_def EBUSY_def)
qed

theorem occupancy_state_machine_witness:
  "occupancy_run (magician_init Map.empty, 0) [Open, Open, Close, Open] =
     ((magician_init Map.empty)\<lparr>already_open := DEVICE_EXCLUSIVE_OPEN\<rparr>, 1) \<and>
   snd (device_open (magician_init Map.empty)) = 0 \<and>
   snd (device_open (fst (device_open (magician_init Map.empty)))) = - EBUSY"
  using occupancy_state_machine
    [of Map.empty "magician_init Map.empty" "[Open, Open, Close, Open]"]
  by (simp add: device_open_def device_release_def atomic_cmpxchg_def magician_init_def
      DEVICE_NOT_USED_def DEVICE_EXCLUSIVE_OPEN_def EBUSY_def)

subsection \<open>Reads of an empty store\<close>

text \<open>
  C5. When \<open>card_size\<close> is 0, a read of the device file returns 0 for every
  requested length, and so does a read of the proc file; neither touches the
  caller's memory or the file position.
\<close>

theorem empty_store_reads_nothing:
  "card_size s = 0 \<Longrightarrow>
     device_read s buffer len offset = (s, offset, 0) \<and>
     procfile_read s buffer len offset = (s, offset, 0)"
  by (simp add: device_read_def procfile_read_def)

theorem empty_store_reads_nothing_witness:
  "card_size (magician_init Map.empty) = 0 \<and>
   device_read (magician_init Map.empty) 0 10 0 = (magician_init Map.empty, 0, 0) \<and>
   procfile_read (magician_init Map.empty) 0 10 0 = (magician_init Map.empty, 0, 0)"
  using empty_store_reads_nothing [of "magician_init Map.empty" 0 10 0]
  by (simp add: magician_init_def)

subsection \<open>The proc file is read once per file position\<close>

text \<open>
  C6. At every file position greater than 0, \<open>procfile_read\<close> returns 0 and
  changes nothing, whatever card is stored. A read at position 0 that succeeds
  (returns a count, not an error) leaves the position at the count it returned.
\<close>

theorem procfile_read_one_shot:
  "(0 <s offset \<longrightarrow> procfile_read s buffer len offset = (s, offset, 0)) \<and>
   (procfile_read s buffer len 0 = (s', offset', r) \<and> 0 \<le> r \<longrightarrow> sint offset' = r)"
  by (auto simp: procfile_read_def EFAULT_def split: prod.splits if_splits)

theorem procfile_read_one_shot_witness:
  "0 <s (2 :: loff_t) \<and>
   procfile_read
     \<lparr>card_buf = 65 # 66 # replicate 1022 0, card_size = 2,
      already_open = 0, user = (\<lambda>a. Some 0)\<rparr> 0 16 2 =
     (\<lparr>card_buf = 65 # 66 # replicate 1022 0, card_size = 2,
       already_open = 0, user = (\<lambda>a. Some 0)\<rparr>, 2, 0) \<and>
   procfile_read
     \<lparr>card_buf = 65 # 66 # replicate 1022 0, card_size = 2,
      already_open = 0, user = (\<lambda>a. Some 0)\<rparr> 0 16 0 =
     (\<lparr>card_buf = 65 # 66 # replicate 1022 0, card_size = 2,
       already_open = 0, user = (\<lambda>a. Some 0)(0 \<mapsto> 65, 1 \<mapsto> 66)\<rparr>, 2, 2) \<and>
   (0 :: int) \<le> 2 \<and> sint (2 :: loff_t) = 2"
  using procfile_read_one_shot
    [of 2 "\<lparr>card_buf = 65 # 66 # replicate 1022 0, card_size = 2,
            already_open = 0, user = (\<lambda>a. Some 0)\<rparr>" 0 16
        "\<lparr>card_buf = 65 # 66 # replicate 1022 0, card_size = 2,
          already_open = 0, user = (\<lambda>a. Some 0)(0 \<mapsto> 65, 1 \<mapsto> 66)\<rparr>" 2 2]
  by (simp add: procfile_read_def word_sless_alt)

subsection \<open>Writes to the device file\<close>

text \<open>
  C7. \<open>device_write\<close> changes neither the stored card (array and size), nor the
  occupancy flag, nor anything else of the state, and returns the length it was
  given, a count and not an error, for every length that an \<open>ssize_t\<close> can hold.
\<close>

theorem device_write_frame:
  "unat len < 2 ^ 63 \<Longrightarrow>
     device_write s buffer len offset = (s, offset, int (unat len))"
  by (simp add: device_write_def sint_small)

theorem device_write_frame_witness:
  "unat (5 :: size_t) < 2 ^ 63 \<and>
   device_write (magician_init Map.empty) 0 5 0 = (magician_init Map.empty, 0, 5)"
  using device_write_frame [of 5 "magician_init Map.empty" 0 0]
  by simp

subsection \<open>The bound on the stored length\<close>

text \<open>
  C9. \<open>card_size < MAX_SIZE\<close> holds in the initial state, where \<open>card_size\<close> is 0;
  every file operation preserves it, a \<open>procfile_write\<close> of any length included;
  so it holds after every sequence of calls.
\<close>

theorem store_invariant:
  "store_inv (magician_init um) \<and> card_size (magician_init um) = 0 \<and>
   (store_inv s \<longrightarrow> store_inv (exec s c)) \<and>
   store_inv (fst (procfile_write s buffer len offset)) \<and>
   store_inv (run (magician_init um) cs)"
proof -
  have init: "store_inv (magician_init um)"
    by (simp add: store_inv_def magician_init_def MAX_SIZE_def)
  then have "store_inv (run (magician_init um) cs)"
    by (rule run_store_inv)
  with init show ?thesis
    by (simp add: exec_store_inv procfile_write_store_inv magician_init_def)
qed

theorem store_invariant_witness:
  "store_inv (magician_init Map.empty) \<and>
   store_inv (exec (magician_init Map.empty) (ProcWrite 0 5000 0)) \<and>
   card_size (exec (magician_init Map.empty) (ProcWrite 0 5000 0)) = 1023 \<and>
   store_inv (run (magician_init Map.empty) [ProcWrite 0 5000 0, DevRead 0 4 0])"
  using store_invariant
    [of Map.empty "magician_init Map.empty" "ProcWrite 0 5000 0" 0 5000 0
        "[ProcWrite 0 5000 0, DevRead 0 4 0]"]
  by (simp add: procfile_write_def MAX_SIZE_def Let_def split: prod.splits)

subsection \<open>The proc file read and the requested length\<close>

text \<open>
  C3. A read of the proc file is claimed to transfer at most the requested
  number of bytes. \<open>procfile_read\<close> never looks at its \<open>length\<close> argument: with
  the two-byte card \<open>AB\<close> stored and one byte requested at position 0, it copies
  two bytes to the caller and returns 2.
\<close>

theorem procfile_read_ignores_length:
  "procfile_read
     \<lparr>card_buf = 65 # 66 # replicate 1022 0, card_size = 2,
      already_open = 0, user = (\<lambda>a. Some 0)\<rparr> 0 1 0 =
     (\<lparr>card_buf = 65 # 66 # replicate 1022 0, card_size = 2,
       already_open = 0, user = (\<lambda>a. Some 0)(0 \<mapsto> 65, 1 \<mapsto> 66)\<rparr>, 2, 2)"
  by (simp add: procfile_read_def)

subsection \<open>The cyclic read of the device file\<close>

text \<open>
  C1. With a non-empty card stored, a read of \<open>n\<close> bytes from the device file into
  a buffer of \<open>n\<close> mapped bytes returns \<open>n\<close> and delivers exactly \<open>n\<close> bytes, and
  byte \<open>i\<close> of them is byte \<open>i mod len(c)\<close> of the stored card \<open>c\<close>, for every
  \<open>i < n\<close>. (\<open>n\<close> is a length that an \<open>ssize_t\<close> can hold.)
\<close>

theorem device_read_cyclic:
  assumes "store_inv s" and "card_array s" and "card_size s \<noteq> 0"
    and "mapped (user s) buffer (unat len)" and "unat len < 2 ^ 63"
  shows "snd (snd (device_read s buffer len offset)) = int (unat len) \<and>
     length (delivered (device_read s buffer len offset) buffer) = unat len \<and>
     (\<forall>i < unat len.
        delivered (device_read s buffer len offset) buffer ! i =
          stored_card s ! (i mod length (stored_card s)))"
  using device_read_delivered [OF assms] by simp

theorem device_read_cyclic_witness:
  "store_inv \<lparr>card_buf = 65 # 66 # replicate 1022 0, card_size = 2,
      already_open = 1, user = (\<lambda>a. if a < 8 then Some 0 else None)\<rparr> \<and>
   card_array \<lparr>card_buf = 65 # 66 # replicate 1022 0, card_size = 2,
      already_open = 1, user = (\<lambda>a. if a < 8 then Some 0 else None)\<rparr> \<and>
   mapped (\<lambda>a. if a < 8 then Some 0 else None) 0 (unat (3 :: size_t)) \<and>
   unat (3 :: size_t) < 2 ^ 63 \<and>
   delivered (device_read \<lparr>card_buf = 65 # 66 # replicate 1022 0, card_size = 2,
      already_open = 1, user = (\<lambda>a. if a < 8 then Some 0 else None)\<rparr> 0 3 0) 0 = [65, 66, 65]"
  using device_read_cyclic [of "\<lparr>card_buf = 65 # 66 # replicate 1022 0, card_size = 2,
      already_open = 1, user = (\<lambda>a. if a < 8 then Some 0 else None)\<rparr>" 0 3 0]
  apply (simp add: store_inv_def card_array_def MAX_SIZE_def mapped_def stored_card_def)
  apply (simp add: delivered_def device_read_def put_user_def fetch_numeral
      device_read_loop.simps)
  done

subsection \<open>Device reads do not depend on the read history\<close>

text \<open>
  C8. What a read of the device file returns and delivers is determined by the
  stored card and the requested length alone: two calls in states with the same
  stored card, at any two file positions, into buffers at any two (mapped)
  places and whatever was read before, return the same count and deliver the
  same bytes. So two consecutive reads of 3 bytes of the card \<open>AB\<close> both deliver
  \<open>ABA\<close>, and after the card \<open>A\<close> is replaced by \<open>BC\<close> the next read of 5 bytes
  delivers \<open>BCBCB\<close>; both runs are evaluated in the instance that follows.
\<close>

theorem device_read_history_independent:
  assumes "store_inv s1" and "card_array s1" and "store_inv s2" and "card_array s2"
    and "stored_card s1 = stored_card s2"
    and "mapped (user s1) b1 (unat len)" and "mapped (user s2) b2 (unat len)"
  shows "snd (snd (device_read s1 b1 len o1)) = snd (snd (device_read s2 b2 len o2)) \<and>
     delivered (device_read s1 b1 len o1) b1 = delivered (device_read s2 b2 len o2) b2"
  using device_read_depends_on_stored_card [OF assms(1,2,6), of o1]
    device_read_depends_on_stored_card [OF assms(3,4,7), of o2] assms(5)
  by simp

theorem device_read_history_independent_witness:
  "(let s1 = \<lparr>card_buf = 65 # 66 # replicate 1022 0, card_size = 2, already_open = 1,
              user = (\<lambda>a. if a < 8 then Some 0 else None)\<rparr>;
        s2 = fst (device_read s1 0 3 0)
    in store_inv s1 \<and> card_array s1 \<and> store_inv s2 \<and> card_array s2 \<and>
       stored_card s1 = stored_card s2 \<and>
       mapped (user s1) 0 (unat (3 :: size_t)) \<and> mapped (user s2) 0 (unat (3 :: size_t)) \<and>
       fst (snd (device_read s1 0 3 0)) = 3 \<and>
       delivered (device_read s1 0 3 0) 0 = [65, 66, 65] \<and>
       delivered (device_read s2 0 3 3) 0 = [65, 66, 65]) \<and>
   (let s0 = magician_init (\<lambda>a. if a < 8 then Some 0 else if a = 8 then Some 65 else
                if a = 9 then Some 66 else if a = 10 then Some 67 else None);
        sA = fst (procfile_write s0 8 1 0);
        rA = device_read sA 0 5 0;
        sBC = fst (procfile_write (fst rA) 9 2 0)
    in delivered rA 0 = [65, 65, 65, 65, 65] \<and>
       delivered (device_read sBC 0 5 5) 0 = [66, 67, 66, 67, 66])"
  using device_read_history_independent
    [of "\<lparr>card_buf = 65 # 66 # replicate 1022 0, card_size = 2, already_open = 1,
           user = (\<lambda>a. if a < 8 then Some 0 else None)\<rparr>"
        "fst (device_read \<lparr>card_buf = 65 # 66 # replicate 1022 0, card_size = 2,
           already_open = 1, user = (\<lambda>a. if a < 8 then Some 0 else None)\<rparr> 0 3 0)"
        0 3 0 0 3]
  by (simp add: Let_def store_inv_def card_array_def stored_card_def mapped_def
      delivered_def device_read_def put_user_def fetch_numeral device_read_loop.simps
      procfile_write_def copy_from_user_def magician_init_def MAX_SIZE_def word_le_nat_alt)

subsection \<open>A write to the proc file, then a read\<close>

text \<open>
  C2. Let \<open>bs\<close> be the byte string of \<open>len\<close> bytes in the caller's buffer. A
  \<open>procfile_write\<close> of it returns \<open>min(len(bs), MAX_SIZE - 1)\<close> and stores exactly
  the first \<open>MAX_SIZE - 1\<close> bytes of \<open>bs\<close>; a \<open>procfile_read\<close> at position 0 that
  follows (into a buffer with that many mapped bytes) returns the same count and
  delivers those bytes: all of \<open>bs\<close> when \<open>len(bs) < MAX_SIZE\<close>, its first
  \<open>MAX_SIZE - 1\<close> bytes otherwise, with no error.
\<close>

theorem control_write_read_roundtrip:
  assumes "card_array s"
    and "length bs = unat len" and "fetch (user s) src (unat len) = bs"
    and "mapped (user s) dst (min (length bs) (MAX_SIZE - 1))"
  shows "snd (snd (procfile_write s src len woff)) = int (min (length bs) (MAX_SIZE - 1)) \<and>
     stored_card (fst (procfile_write s src len woff)) = take (MAX_SIZE - 1) bs \<and>
     snd (snd (procfile_read (fst (procfile_write s src len woff)) dst rlen 0)) =
       int (min (length bs) (MAX_SIZE - 1)) \<and>
     delivered (procfile_read (fst (procfile_write s src len woff)) dst rlen 0) dst =
       take (MAX_SIZE - 1) bs \<and>
     (length bs < MAX_SIZE \<longrightarrow>
        delivered (procfile_read (fst (procfile_write s src len woff)) dst rlen 0) dst = bs)"
proof -
  define m where "m = min (unat len) (MAX_SIZE - 1)"
  have "mapped (user s) src (unat len)"
  proof (rule ccontr)
    assume "\<not> mapped (user s) src (unat len)"
    then have "length (fetch (user s) src (unat len)) < unat len"
      by (rule fetch_unmapped)
    with assms(2,3) show False by simp
  qed
  then have ms: "mapped (user s) src m"
    by (simp add: mapped_def m_def)
  have "fetch (user s) src m = take m (fetch (user s) src (unat len))"
    by (rule fetch_take) (simp add: m_def)
  with assms(2,3) have got: "fetch (user s) src m = take (MAX_SIZE - 1) bs"
    by (simp add: m_def min_def)
  from procfile_write_ok [OF assms(1) ms [unfolded m_def], of woff] obtain s' where
    w: "procfile_write s src len woff = (s', woff + card_size s', int m)" and
    cs: "unat (card_size s') = m" and
    sc: "stored_card s' = fetch (user s) src m" and
    ca: "card_array s'" and us: "user s' = user s"
    unfolding m_def by blast
  have si: "store_inv s'"
    using cs by (simp add: store_inv_def m_def MAX_SIZE_def)
  have md: "mapped (user s') dst (unat (card_size s'))"
    using assms(2,4) cs us by (simp add: m_def)
  have "sint (0 :: loff_t) \<le> 0"
    by simp
  from procfile_read_ok [OF si ca this md, of rlen] w cs sc got assms(2)
  show ?thesis
    by (simp add: m_def)
qed

theorem control_write_read_roundtrip_witness:
  "(let s = magician_init (\<lambda>a. if a < 8 then Some 0 else if a = 8 then Some 66 else
                if a = 9 then Some 67 else None);
        w = procfile_write s 8 2 0
    in card_array s \<and> length [66, 67 :: byte] = unat (2 :: size_t) \<and>
       fetch (user s) 8 (unat (2 :: size_t)) = [66, 67] \<and>
       mapped (user s) 0 (min (length [66, 67 :: byte]) (MAX_SIZE - 1)) \<and>
       snd (snd w) = 2 \<and>
       delivered (procfile_read (fst w) 0 4096 0) 0 = [66, 67])"
  using control_write_read_roundtrip
    [of "magician_init (\<lambda>a. if a < 8 then Some 0 else if a = 8 then Some 66 else
                if a = 9 then Some 67 else None)" "[66, 67]" 2 8 0 0 4096]
  by (simp add: Let_def card_array_def mapped_def magician_init_def MAX_SIZE_def fetch_numeral)

subsection \<open>A write to the proc file that faults\<close>

text \<open>
  C10, as stated, has a read after a failed write return the new length's worth
  of the old array contents. \<open>copy_from_user\<close> fills what it could not copy with
  zero bytes, so the old bytes below the new length are gone: with the card
  \<open>ABCDE\<close> stored, a write of 3 bytes from an unmapped buffer returns \<open>-EFAULT\<close>
  and leaves \<open>card_size = 3\<close>, and the read that follows delivers three zero
  bytes, not \<open>ABC\<close>.
\<close>

theorem procfile_write_fault_old_contents_counterexample:
  "snd (snd (procfile_write
      \<lparr>card_buf = 65 # 66 # 67 # 68 # 69 # replicate 1019 0, card_size = 5,
       already_open = 0, user = (\<lambda>a. if a < 8 then Some 7 else None)\<rparr> 100 3 0)) = - EFAULT \<and>
   card_size (fst (procfile_write
      \<lparr>card_buf = 65 # 66 # 67 # 68 # 69 # replicate 1019 0, card_size = 5,
       already_open = 0, user = (\<lambda>a. if a < 8 then Some 7 else None)\<rparr> 100 3 0)) = 3 \<and>
   take 3 (card_buf
      \<lparr>card_buf = 65 # 66 # 67 # 68 # 69 # replicate 1019 0, card_size = 5,
       already_open = 0, user = (\<lambda>a. if a < 8 then Some 7 else None)\<rparr>) = [65, 66, 67] \<and>
   delivered (procfile_read (fst (procfile_write
      \<lparr>card_buf = 65 # 66 # 67 # 68 # 69 # replicate 1019 0, card_size = 5,
       already_open = 0, user = (\<lambda>a. if a < 8 then Some 7 else None)\<rparr> 100 3 0)) 0 8 0) 0
     = [0, 0, 0] \<and>
   delivered (procfile_read (fst (procfile_write
      \<lparr>card_buf = 65 # 66 # 67 # 68 # 69 # replicate 1019 0, card_size = 5,
       already_open = 0, user = (\<lambda>a. if a < 8 then Some 7 else None)\<rparr> 100 3 0)) 0 8 0) 0
     \<noteq> take 3 (card_buf
      \<lparr>card_buf = 65 # 66 # 67 # 68 # 69 # replicate 1019 0, card_size = 5,
       already_open = 0, user = (\<lambda>a. if a < 8 then Some 7 else None)\<rparr>)"
proof -
  define s where
    "s = \<lparr>card_buf = 65 # 66 # 67 # 68 # 69 # replicate 1019 0, card_size = 5,
          already_open = 0, user = (\<lambda>a. if a < 8 then Some (7 :: byte) else None)\<rparr>"
  define s' where
    "s' = \<lparr>card_buf = 0 # 0 # 0 # 68 # 69 # replicate 1019 0, card_size = 3,
          already_open = 0, user = (\<lambda>a. if a < 8 then Some (7 :: byte) else None)\<rparr>"
  have r3: "replicate 3 (0 :: byte) = [0, 0, 0]"
    by (simp add: numeral_3_eq_3)
  have w: "procfile_write s 100 3 0 = (s', 0, - EFAULT)"
    by (simp add: s_def s'_def Let_def MAX_SIZE_def procfile_write_def
        copy_from_user_def fetch_numeral word_le_nat_alt r3)
  have rd: "delivered (procfile_read s' 0 8 0) 0 = [0, 0, 0]"
    by (simp add: s'_def procfile_read_def delivered_def fetch_numeral)
  have old: "take 3 (card_buf s) = [65, 66, 67]"
    by (simp add: s_def)
  have "snd (snd (procfile_write s 100 3 0)) = - EFAULT \<and>
      card_size (fst (procfile_write s 100 3 0)) = 3 \<and>
      take 3 (card_buf s) = [65, 66, 67] \<and>
      delivered (procfile_read (fst (procfile_write s 100 3 0)) 0 8 0) 0 = [0, 0, 0] \<and>
      delivered (procfile_read (fst (procfile_write s 100 3 0)) 0 8 0) 0 \<noteq> take 3 (card_buf s)"
    by (simp add: w rd old) (simp add: s'_def)
  then show ?thesis
    unfolding s_def .
qed

text \<open>
  C10, amended. \<open>procfile_write\<close> assigns \<open>card_size\<close> before it copies. When the
  copy of the \<open>m = min(len, MAX_SIZE - 1)\<close> bytes faults, the call returns
  \<open>-EFAULT\<close> with \<open>card_size\<close> already set to \<open>m\<close> and not restored, and the file
  position, the occupancy flag and the caller's memory unchanged. The stored card
  is then the bytes copied before the fault followed by zero bytes up to \<open>m\<close>; the
  array is untouched from index \<open>m\<close> on and no terminator is written. So the failed
  write changes the store, and a following read of the proc file returns \<open>m\<close> and
  delivers those \<open>m\<close> bytes.
\<close>

theorem procfile_write_fault_not_atomic:
  assumes "card_array s"
    and "\<not> mapped (user s) buffer (min (unat len) (MAX_SIZE - 1))"
    and "procfile_write s buffer len offset = (s', offset', r)"
  shows "r = - EFAULT \<and> offset' = offset \<and>
     unat (card_size s') = min (unat len) (MAX_SIZE - 1) \<and>
     store_inv s' \<and> card_array s' \<and>
     user s' = user s \<and> already_open s' = already_open s \<and>
     length (fetch (user s) buffer (min (unat len) (MAX_SIZE - 1))) <
       min (unat len) (MAX_SIZE - 1) \<and>
     stored_card s' =
       fetch (user s) buffer (min (unat len) (MAX_SIZE - 1)) @
       replicate (min (unat len) (MAX_SIZE - 1) -
         length (fetch (user s) buffer (min (unat len) (MAX_SIZE - 1)))) 0 \<and>
     drop (min (unat len) (MAX_SIZE - 1)) (card_buf s') =
       drop (min (unat len) (MAX_SIZE - 1)) (card_buf s) \<and>
     (mapped (user s') dst (min (unat len) (MAX_SIZE - 1)) \<longrightarrow>
        snd (snd (procfile_read s' dst rlen 0)) = int (min (unat len) (MAX_SIZE - 1)) \<and>
        delivered (procfile_read s' dst rlen 0) dst =
          fetch (user s) buffer (min (unat len) (MAX_SIZE - 1)) @
          replicate (min (unat len) (MAX_SIZE - 1) -
            length (fetch (user s) buffer (min (unat len) (MAX_SIZE - 1)))) 0)"
proof -
  define m where "m = min (unat len) (MAX_SIZE - 1)"
  define got where "got = fetch (user s) buffer m"
  from procfile_write_fault [OF assms(1,2), of offset] assms(3) have
    r: "r = - EFAULT" "offset' = offset" and
    cs: "unat (card_size s') = m" and
    cb: "card_buf s' = got @ replicate (m - length got) 0 @ drop m (card_buf s)" and
    ca: "card_array s'" and
    fr: "user s' = user s" "already_open s' = already_open s"
    unfolding m_def got_def by auto
  have si: "store_inv s'"
    using cs by (simp add: store_inv_def m_def MAX_SIZE_def)
  have lt: "length got < m"
    unfolding got_def using assms(2) unfolding m_def [symmetric] by (rule fetch_unmapped)
  then have dr: "drop m (card_buf s') = drop m (card_buf s)"
    by (simp add: cb)
  from lt have sc: "stored_card s' = got @ replicate (m - length got) 0"
    by (simp add: stored_card_def cs cb)
  have rd: "snd (snd (procfile_read s' dst rlen 0)) = int m \<and>
      delivered (procfile_read s' dst rlen 0) dst = got @ replicate (m - length got) 0"
    if md: "mapped (user s') dst m"
  proof -
    have "sint (0 :: loff_t) \<le> 0"
      by simp
    moreover from md cs have "mapped (user s') dst (unat (card_size s'))"
      by simp
    ultimately show ?thesis
      using procfile_read_ok [OF si ca, of 0 dst rlen] cs sc
      by simp
  qed
  from r cs si ca fr lt sc dr rd show ?thesis
    unfolding m_def got_def by blast
qed

theorem procfile_write_fault_not_atomic_witness:
  "card_array
     \<lparr>card_buf = 65 # 66 # 67 # 68 # 69 # replicate 1019 0, card_size = 5, already_open = 0,
      user = (\<lambda>a. if a < 8 then Some 7 else if a = 100 then Some 88 else None)\<rparr> \<and>
   \<not> mapped (\<lambda>a. if a < 8 then Some 7 else if a = 100 then Some 88 else None) 100
       (min (unat (3 :: size_t)) (MAX_SIZE - 1)) \<and>
   procfile_write
     \<lparr>card_buf = 65 # 66 # 67 # 68 # 69 # replicate 1019 0, card_size = 5, already_open = 0,
      user = (\<lambda>a. if a < 8 then Some 7 else if a = 100 then Some 88 else None)\<rparr> 100 3 0 =
     (\<lparr>card_buf = 88 # 0 # 0 # 68 # 69 # replicate 1019 0, card_size = 3, already_open = 0,
       user = (\<lambda>a. if a < 8 then Some 7 else if a = 100 then Some 88 else None)\<rparr>,
      0, - EFAULT) \<and>
   mapped (\<lambda>a. if a < 8 then Some 7 else if a = 100 then Some 88 else None) 0
       (min (unat (3 :: size_t)) (MAX_SIZE - 1)) \<and>
   delivered (procfile_read
     \<lparr>card_buf = 88 # 0 # 0 # 68 # 69 # replicate 1019 0, card_size = 3, already_open = 0,
      user = (\<lambda>a. if a < 8 then Some 7 else if a = 100 then Some 88 else None)\<rparr> 0 8 0) 0 =
     [88, 0, 0]"
proof -
  define um :: umem where
    "um = (\<lambda>a. if a < 8 then Some 7 else if a = 100 then Some 88 else None)"
  define s where
    "s = \<lparr>card_buf = 65 # 66 # 67 # 68 # 69 # replicate 1019 0, card_size = 5,
          already_open = 0, user = um\<rparr>"
  define s' where
    "s' = \<lparr>card_buf = 88 # 0 # 0 # 68 # 69 # replicate 1019 0, card_size = 3,
          already_open = 0, user = um\<rparr>"
  have ca: "card_array s"
    by (simp add: s_def card_array_def MAX_SIZE_def)
  have "um (100 + 1) = None"
    by (simp add: um_def)
  then have "\<exists>k < 3. um (100 + k) = None"
    by (intro exI [of _ 1]) simp
  then have nm: "\<not> mapped (user s) 100 (min (unat (3 :: size_t)) (MAX_SIZE - 1))"
    by (simp add: mapped_def s_def MAX_SIZE_def)
  have r2: "replicate 2 (0 :: byte) = [0, 0]"
    by (simp add: numeral_2_eq_2)
  have w: "procfile_write s 100 3 0 = (s', 0, - EFAULT)"
    by (simp add: s_def s'_def um_def Let_def MAX_SIZE_def procfile_write_def
        copy_from_user_def fetch_numeral word_le_nat_alt r2)
  have md: "mapped (user s') 0 (min (unat (3 :: size_t)) (MAX_SIZE - 1))"
    by (simp add: s'_def um_def mapped_def MAX_SIZE_def)
  have f: "fetch (user s) 100 3 = [88]"
    by (simp add: s_def um_def fetch_numeral)
  from procfile_write_fault_not_atomic [OF ca nm w, of 0 8] md f
  have "delivered (procfile_read s' 0 8 0) 0 = [88, 0, 0]"
    by (simp add: MAX_SIZE_def r2)
  with ca nm w md show ?thesis
    by (simp add: s_def s'_def um_def)
qed

end
